theory Spec2Isabelle
  imports Complex_Main "HOL-Library.Multiset"
begin

section \<open>JavaScript numerics used by both simulations\<close>

text \<open>
  Numbers are modelled as exact rationals. \<open>Math.round\<close> returns the nearest integer and
  resolves a tie towards plus infinity; \<open>Math.trunc\<close> drops the fractional part.
\<close>

definition js_round :: "rat \<Rightarrow> int" where
  "js_round x = \<lfloor>x + 1 / 2\<rfloor>"

definition js_trunc :: "rat \<Rightarrow> int" where
  "js_trunc x = (if 0 \<le> x then \<lfloor>x\<rfloor> else \<lceil>x\<rceil>)"

datatype js_error = RangeError | TypeError

section \<open>simulation.js: neighbour transfer\<close>

text \<open>
  The globals of the host page that both simulations share: the grid dimensions and the
  live integer field, row major, of length \<open>GRID_W * GRID_H\<close>.
\<close>

record grid =
  GRID_W :: nat
  GRID_H :: nat
  temp :: "int list"

text \<open>The module state of simulation.js: the snapshot buffer, \<open>null\<close> before first use.\<close>

record sim = grid +
  oldTemp :: "int list option"

definition FLOW_RATE :: rat where
  "FLOW_RATE = 1 / 4"

definition NEIGHBOURS :: "(int \<times> int) list" where
  "NEIGHBOURS = [(0, - 1), (0, 1), (- 1, 0), (1, 0)]"

text \<open>
  Lines 127 to 142: the rounded raw transfer for one neighbour, clamped by
  \<open>maxTransfer\<close>. The product \<open>diff * FLOW_RATE\<close> and the quotient \<open>diff / 2\<close> are exact
  in double precision for the byte differences that occur, so no rounding step is modelled.
\<close>

definition clampTransfer :: "int \<Rightarrow> int" where
  "clampTransfer diff =
     (let transfer = js_round (of_int diff * FLOW_RATE);
          maxTransfer = js_trunc (of_int diff / 2)
      in if diff > 0 then max 0 (min transfer maxTransfer)
         else min 0 (max transfer maxTransfer))"

text \<open>Lines 111 to 145: the loop over the four neighbours of cell \<open>(x, y)\<close>.\<close>

definition neighbourStep :: "nat \<Rightarrow> nat \<Rightarrow> int list \<Rightarrow> nat \<Rightarrow> nat \<Rightarrow> int \<Rightarrow> int \<times> int \<Rightarrow> int" where
  "neighbourStep W H old x y delta d =
     (let nx = int x + fst d; ny = int y + snd d
      in if nx < 0 \<or> nx \<ge> int W \<or> ny < 0 \<or> ny \<ge> int H then delta
         else let neighbourTemp = old ! nat (ny * int W + nx);
                  diff = neighbourTemp - old ! (y * W + x)
              in if diff = 0 then delta else delta + clampTransfer diff)"

definition cellDelta :: "nat \<Rightarrow> nat \<Rightarrow> int list \<Rightarrow> nat \<Rightarrow> nat \<Rightarrow> int" where
  "cellDelta W H old x y = foldl (neighbourStep W H old x y) 0 NEIGHBOURS"

text \<open>Line 148: the value written to cell \<open>(x, y)\<close>.\<close>

definition newTemp :: "nat \<Rightarrow> nat \<Rightarrow> int list \<Rightarrow> nat \<Rightarrow> nat \<Rightarrow> int" where
  "newTemp W H old x y = max 0 (min 100 (old ! (y * W + x) + cellDelta W H old x y))"

text \<open>
  The cell loops write one element of the live array per visited cell. A cell is a pair
  \<open>(y, x)\<close>; the source visits them in the order of \<open>rowMajor\<close>. A write beyond the end of
  a typed array is ignored, as \<open>list_update\<close> does.
\<close>

definition visit :: "nat \<Rightarrow> nat \<Rightarrow> int list \<Rightarrow> int list \<Rightarrow> nat \<times> nat \<Rightarrow> int list" where
  "visit W H old t c = t[fst c * W + snd c := newTemp W H old (snd c) (fst c)]"

definition sweep :: "nat \<Rightarrow> nat \<Rightarrow> int list \<Rightarrow> (nat \<times> nat) list \<Rightarrow> int list \<Rightarrow> int list" where
  "sweep W H old cells t = foldl (visit W H old) t cells"

definition rowMajor :: "nat \<Rightarrow> nat \<Rightarrow> (nat \<times> nat) list" where
  "rowMajor W H = List.product [0..<H] [0..<W]"

text \<open>
  Lines 99 to 102: the snapshot buffer is a \<open>Uint8Array\<close>, reallocated (zero filled) when
  it is missing or has the wrong length; \<open>set\<close> stores every element of \<open>temp\<close> as a byte
  and raises \<open>RangeError\<close> when \<open>temp\<close> is longer than the buffer.
\<close>

definition snapshot :: "sim \<Rightarrow> js_error + int list" where
  "snapshot s =
     (let size = GRID_W s * GRID_H s;
          buf = (case oldTemp s of
                   None \<Rightarrow> replicate size 0
                 | Some b \<Rightarrow> if length b \<noteq> size then replicate size 0 else b)
      in if length (temp s) > size then Inl RangeError
         else Inr (map (\<lambda>v. v mod 256) (temp s) @ drop (length (temp s)) buf))"

definition updateGrid :: "sim \<Rightarrow> js_error + sim" where
  "updateGrid s =
     (case snapshot s of
        Inl e \<Rightarrow> Inl e
      | Inr old \<Rightarrow>
          Inr (s\<lparr>temp := sweep (GRID_W s) (GRID_H s) old (rowMajor (GRID_W s) (GRID_H s)) (temp s),
                 oldTemp := Some old\<rparr>))"

text \<open>
  The same frame with the cells visited in the order of a given list, to compare other
  visiting orders with the row-major one of the source.
\<close>

definition updateGridIn :: "(nat \<times> nat) list \<Rightarrow> sim \<Rightarrow> js_error + sim" where
  "updateGridIn cells s =
     (case snapshot s of
        Inl e \<Rightarrow> Inl e
      | Inr old \<Rightarrow>
          Inr (s\<lparr>temp := sweep (GRID_W s) (GRID_H s) old cells (temp s),
                 oldTemp := Some old\<rparr>))"

text \<open>A sequence of frames: the host calls \<open>updateGrid\<close> once per frame.\<close>

fun frames :: "nat \<Rightarrow> sim \<Rightarrow> js_error + sim" where
  "frames 0 s = Inr s"
| "frames (Suc n) s = (case updateGrid s of Inl e \<Rightarrow> Inl e | Inr s' \<Rightarrow> frames n s')"

definition in_range :: "int list \<Rightarrow> bool" where
  "in_range t = list_all (\<lambda>v. 0 \<le> v \<and> v \<le> 100) t"

section \<open>Binary floating point\<close>

text \<open>
  The accumulators of simulation2.js are \<open>Float32Array\<close> elements and its arithmetic is
  double precision. A finite floating-point number is the rational it denotes; an operation
  computes the exact result and rounds it to the nearest representable number, ties to the
  even significand. \<open>round_to p emin\<close> rounds to \<open>p\<close> significant bits with least normal
  exponent \<open>emin\<close>, subnormal numbers included. Overflow to infinity and NaN are outside the
  model: every number the simulation handles has magnitude at most 500.
\<close>

definition pow2 :: "int \<Rightarrow> rat" where
  "pow2 k = (if 0 \<le> k then 2 ^ nat k else 1 / 2 ^ nat (- k))"

fun bitlen :: "int \<Rightarrow> int" where
  "bitlen n = (if n \<le> 0 then 0 else 1 + bitlen (n div 2))"

declare bitlen.simps [simp del]

text \<open>The binary exponent of a non-zero rational: the floor of the logarithm of its magnitude.\<close>

definition ilog2 :: "rat \<Rightarrow> int" where
  "ilog2 x = (if 1 \<le> \<bar>x\<bar> then bitlen \<lfloor>\<bar>x\<bar>\<rfloor> - 1 else - bitlen (\<lceil>1 / \<bar>x\<bar>\<rceil> - 1))"

text \<open>The nearest integer, a tie going to the even one.\<close>

definition rne :: "rat \<Rightarrow> int" where
  "rne x = (let f = \<lfloor>x\<rfloor>; r = x - of_int f
            in if r < 1 / 2 then f else if 1 / 2 < r then f + 1
               else if even f then f else f + 1)"

definition round_to :: "nat \<Rightarrow> int \<Rightarrow> rat \<Rightarrow> rat" where
  "round_to p emin x =
     (if x = 0 then 0
      else let q = pow2 (max (ilog2 x) emin - int p + 1) in of_int (rne (x / q)) * q)"

text \<open>A store into a \<open>Float32Array\<close> rounds to binary32; an arithmetic result to binary64.\<close>

definition fround :: "rat \<Rightarrow> rat" where
  "fround = round_to 24 (- 126)"

definition dround :: "rat \<Rightarrow> rat" where
  "dround = round_to 53 (- 1022)"

definition dadd :: "rat \<Rightarrow> rat \<Rightarrow> rat" where
  "dadd a b = dround (a + b)"

definition dsub :: "rat \<Rightarrow> rat \<Rightarrow> rat" where
  "dsub a b = dround (a - b)"

definition dmul :: "rat \<Rightarrow> rat \<Rightarrow> rat" where
  "dmul a b = dround (a * b)"

section \<open>simulation2.js: Laplacian stencil\<close>

text \<open>
  The module state of simulation2.js: the two accumulator buffers, \<open>null\<close> before first
  use. The model covers a field of length \<open>GRID_W * GRID_H\<close> and accumulators that hold finite
  numbers; a read beyond the end of an array, which yields NaN in the source, is outside it.
\<close>

record sim2 = grid +
  stateA :: "rat list option"
  stateB :: "rat list option"

text \<open>The literal \<open>0.2\<close> denotes the double nearest to one fifth.\<close>

definition DIFFUSIVITY :: rat where
  "DIFFUSIVITY = dround (1 / 5)"

text \<open>Lines 35 to 44.\<close>

definition ensureBuffers :: "nat \<Rightarrow> sim2 \<Rightarrow> sim2" where
  "ensureBuffers sz s =
     (if (case stateA s of None \<Rightarrow> True | Some a \<Rightarrow> length a \<noteq> sz)
      then let seed = map (\<lambda>i. fround (of_int (temp s ! i))) [0..<sz]
           in s\<lparr>stateA := Some seed, stateB := Some seed\<rparr>
      else s)"

text \<open>Lines 58 to 62: adopt every field value that differs from the rounded accumulator.\<close>

definition syncCell :: "int list \<Rightarrow> rat list \<Rightarrow> nat \<Rightarrow> rat list" where
  "syncCell t a i = (if t ! i \<noteq> js_round (a ! i) then a[i := fround (of_int (t ! i))] else a)"

definition syncEdits :: "nat \<Rightarrow> int list \<Rightarrow> rat list \<Rightarrow> rat list" where
  "syncEdits sz t a = foldl (syncCell t) a [0..<sz]"

text \<open>Lines 65 to 80: the value computed for cell \<open>(x, y)\<close> from the current accumulator.\<close>

definition stencil :: "nat \<Rightarrow> nat \<Rightarrow> rat list \<Rightarrow> nat \<Rightarrow> nat \<Rightarrow> rat" where
  "stencil W H a x y =
     (let row = y * W;
          rowUp = (if y > 0 then row - W else row);
          rowDown = (if y < H - 1 then row + W else row);
          center = a ! (row + x);
          up = a ! (rowUp + x);
          down = a ! (rowDown + x);
          left = a ! (row + (if x > 0 then x - 1 else x));
          right = a ! (row + (if x < W - 1 then x + 1 else x));
          laplacian = dsub (dadd (dadd (dadd up down) left) right) (dmul 4 center);
          next = dadd center (dmul DIFFUSIVITY laplacian)
      in max 0 (min 100 next))"

text \<open>Lines 64 to 82: the cell loops store one element of the next accumulator per cell.\<close>

definition diffuseCell :: "nat \<Rightarrow> nat \<Rightarrow> rat list \<Rightarrow> rat list \<Rightarrow> nat \<times> nat \<Rightarrow> rat list" where
  "diffuseCell W H a b c = b[fst c * W + snd c := fround (stencil W H a (snd c) (fst c))]"

definition diffuse :: "nat \<Rightarrow> nat \<Rightarrow> rat list \<Rightarrow> rat list \<Rightarrow> rat list" where
  "diffuse W H a b = foldl (diffuseCell W H a) b (rowMajor W H)"

text \<open>Lines 85 to 87.\<close>

definition publishCell :: "rat list \<Rightarrow> int list \<Rightarrow> nat \<Rightarrow> int list" where
  "publishCell b t i = t[i := max 0 (min 100 (js_round (b ! i)))]"

definition publish :: "nat \<Rightarrow> rat list \<Rightarrow> int list \<Rightarrow> int list" where
  "publish sz b t = foldl (publishCell b) t [0..<sz]"

text \<open>
  Lines 50 to 92. Indexing \<open>null\<close> raises \<open>TypeError\<close>; after \<open>ensureBuffers\<close> that can only
  happen to \<open>stateB\<close>, and only when a loop body runs.
\<close>

definition updateGrid2 :: "sim2 \<Rightarrow> js_error + sim2" where
  "updateGrid2 s0 =
     (let sz = GRID_W s0 * GRID_H s0;
          s = ensureBuffers sz s0
      in case stateA s of
           None \<Rightarrow> Inl TypeError
         | Some a \<Rightarrow>
             (case stateB s of
                None \<Rightarrow> if sz = 0 then Inr (s\<lparr>stateA := None, stateB := Some a\<rparr>)
                        else Inl TypeError
              | Some b \<Rightarrow>
                  let a1 = syncEdits sz (temp s) a;
                      b1 = diffuse (GRID_W s) (GRID_H s) a1 b;
                      t1 = publish sz b1 (temp s)
                  in Inr (s\<lparr>temp := t1, stateA := Some b1, stateB := Some a1\<rparr>)))"

fun frames2 :: "nat \<Rightarrow> sim2 \<Rightarrow> js_error + sim2" where
  "frames2 0 s = Inr s"
| "frames2 (Suc n) s = (case updateGrid2 s of Inl e \<Rightarrow> Inl e | Inr s' \<Rightarrow> frames2 n s')"

text \<open>All accumulator values lie between 0 and 100.\<close>

definition acc_in_range :: "rat list \<Rightarrow> bool" where
  "acc_in_range a = list_all (\<lambda>v. 0 \<le> v \<and> v \<le> 100) a"

text \<open>
  The buffers as \<open>ensureBuffers\<close> and the swap leave them: both \<open>null\<close>, or two arrays of one
  length.
\<close>

definition buffers_paired :: "sim2 \<Rightarrow> bool" where
  "buffers_paired s =
     (case stateA s of
        None \<Rightarrow> stateB s = None
      | Some a \<Rightarrow> (case stateB s of None \<Rightarrow> False | Some b \<Rightarrow> length b = length a))"

definition accs_in_range :: "sim2 \<Rightarrow> bool" where
  "accs_in_range s =
     ((case stateA s of None \<Rightarrow> True | Some a \<Rightarrow> acc_in_range a) \<and>
      (case stateB s of None \<Rightarrow> True | Some b \<Rightarrow> acc_in_range b))"

section \<open>Properties of the neighbour transfer\<close>

subsection \<open>The arithmetic of one transfer\<close>

lemma js_trunc_half: "js_trunc (of_int d / 2) = (if 0 \<le> d then d div 2 else - ((- d) div 2))"
proof -
  have f: "\<lfloor>(of_int d :: rat) / 2\<rfloor> = d div 2"
    using floor_divide_of_int_eq [of d 2, where ?'a = rat] by simp
  have c: "\<lceil>(of_int d :: rat) / 2\<rceil> = - ((- d) div 2)"
    using floor_divide_of_int_eq [of "- d" 2, where ?'a = rat] by (simp add: ceiling_def)
  show ?thesis by (simp add: js_trunc_def f c zero_le_divide_iff divide_less_0_iff)
qed

lemma js_round_quarter: "js_round (of_int d * FLOW_RATE) = (d + 2) div 4"
proof -
  have "(of_int d :: rat) * (1 / 4) + 1 / 2 = of_int (d + 2) / of_int 4" by simp
  then have "js_round (of_int d * FLOW_RATE) = \<lfloor>(of_int (d + 2) :: rat) / of_int 4\<rfloor>"
    unfolding js_round_def FLOW_RATE_def by (simp only:)
  then show ?thesis by (simp only: floor_divide_of_int_eq)
qed

lemma clampTransfer_int:
  "clampTransfer d =
     (if d > 0 then max 0 (min ((d + 2) div 4) (d div 2))
      else min 0 (max ((d + 2) div 4) (- ((- d) div 2))))"
  by (simp add: clampTransfer_def js_round_quarter js_trunc_half Let_def)

lemma clampTransfer_pos: "d > 0 \<Longrightarrow> 0 \<le> clampTransfer d \<and> clampTransfer d \<le> d div 2"
  unfolding clampTransfer_int by (simp add: max_def min_def)

lemma clampTransfer_neg: "d \<le> 0 \<Longrightarrow> - ((- d) div 2) \<le> clampTransfer d \<and> clampTransfer d \<le> 0"
  unfolding clampTransfer_int by (simp add: max_def min_def)

subsection \<open>The cell loops as a list of writes\<close>

lemma list_product_append:
  "List.product (xs @ ys) zs = List.product xs zs @ List.product ys zs"
  by (induction xs) simp_all

lemma idx_rowMajor: "map (\<lambda>c. fst c * W + snd c) (rowMajor W H) = [0..<H * W]"
proof (induction H)
  case 0
  show ?case by (simp add: rowMajor_def)
next
  case (Suc H)
  have "map (\<lambda>c. fst c * W + snd c) (map (Pair H) [0..<W]) = map (\<lambda>i. i + H * W) [0..<W]"
    by (simp add: add.commute)
  also have "\<dots> = [H * W..<H * W + W]"
    by (simp add: map_add_upt add.commute)
  finally have a: "map (\<lambda>c. fst c * W + snd c) (map (Pair H) [0..<W]) = [H * W..<H * W + W]" .
  have b: "[0..<H * W + W] = [0..<H * W] @ [H * W..<H * W + W]"
    by (rule upt_add_eq_append) simp
  have "map (\<lambda>c. fst c * W + snd c) (rowMajor W (Suc H)) =
        map (\<lambda>c. fst c * W + snd c) (rowMajor W H) @
        map (\<lambda>c. fst c * W + snd c) (map (Pair H) [0..<W])"
    by (simp add: rowMajor_def list_product_append)
  also have "\<dots> = [0..<H * W + W]"
    unfolding a b Suc ..
  finally show ?case by (simp add: add.commute)
qed

lemma length_foldl_update: "length (foldl (\<lambda>t c. t[f c := g c]) t cs) = length t"
  by (induction cs arbitrary: t) simp_all

lemma foldl_update_other:
  "i \<notin> f ` set cs \<Longrightarrow> foldl (\<lambda>t c. t[f c := g c]) t cs ! i = t ! i"
  by (induction cs arbitrary: t) auto

lemma foldl_update_hit:
  "distinct (map f cs) \<Longrightarrow> c \<in> set cs \<Longrightarrow> f c < length t \<Longrightarrow>
   foldl (\<lambda>t c. t[f c := g c]) t cs ! f c = g c"
proof (induction cs arbitrary: t)
  case Nil
  then show ?case by simp
next
  case (Cons a cs)
  show ?case
  proof (cases "c = a")
    case True
    with Cons.prems have "f c \<notin> f ` set cs" by auto
    then show ?thesis using True Cons.prems(3) by (simp add: foldl_update_other)
  next
    case False
    with Cons show ?thesis by simp
  qed
qed

lemma sweep_foldl: "sweep W H old cells t =
   foldl (\<lambda>t c. t[fst c * W + snd c := newTemp W H old (snd c) (fst c)]) t cells"
  by (simp add: sweep_def visit_def [abs_def])

lemma length_sweep: "length (sweep W H old cells t) = length t"
  by (simp add: sweep_foldl length_foldl_update)

lemma sweep_perm:
  assumes "mset cells = mset (rowMajor W H)"
  shows "sweep W H old cells t = sweep W H old (rowMajor W H) t"
proof (rule nth_equalityI)
  show "length (sweep W H old cells t) = length (sweep W H old (rowMajor W H) t)"
    by (simp add: length_sweep)
next
  fix i assume "i < length (sweep W H old cells t)"
  then have i: "i < length t" by (simp add: length_sweep)
  let ?f = "\<lambda>c :: nat \<times> nat. fst c * W + snd c"
  have d0: "distinct (map ?f (rowMajor W H))" by (simp add: idx_rowMajor)
  have "mset (map ?f cells) = mset (map ?f (rowMajor W H))"
    by (simp only: mset_map assms)
  then have d1: "distinct (map ?f cells)"
    using d0 mset_eq_imp_distinct_iff by blast
  have s: "set cells = set (rowMajor W H)" using assms by (rule mset_eq_setD)
  show "sweep W H old cells t ! i = sweep W H old (rowMajor W H) t ! i"
  proof (cases "i \<in> ?f ` set cells")
    case True
    then obtain c where c: "c \<in> set cells" "i = ?f c" by auto
    have "sweep W H old cells t ! ?f c = newTemp W H old (snd c) (fst c)"
      unfolding sweep_foldl using d1 c i by (intro foldl_update_hit) auto
    moreover have "sweep W H old (rowMajor W H) t ! ?f c = newTemp W H old (snd c) (fst c)"
      unfolding sweep_foldl using d0 c i s by (intro foldl_update_hit) auto
    ultimately show ?thesis using c by simp
  next
    case False
    then show ?thesis using s by (simp add: sweep_foldl foldl_update_other)
  qed
qed

lemma cell_index_bound: "x < W \<Longrightarrow> y < H \<Longrightarrow> y * W + x < W * (H :: nat)"
proof -
  assume a: "x < W" "y < H"
  have "y * W + x < y * W + W" using a by simp
  also have "\<dots> = Suc y * W" by simp
  also have "\<dots> \<le> H * W" using a(2) by (intro mult_le_mono1) simp
  finally show ?thesis by (simp add: mult.commute)
qed

lemma sweep_rowMajor_nth:
  assumes "x < W" "y < H" "length t = W * H"
  shows "sweep W H old (rowMajor W H) t ! (y * W + x) = newTemp W H old x y"
proof -
  let ?f = "\<lambda>c :: nat \<times> nat. fst c * W + snd c"
  have d0: "distinct (map ?f (rowMajor W H))" by (simp add: idx_rowMajor)
  have m: "(y, x) \<in> set (rowMajor W H)" using assms by (simp add: rowMajor_def)
  have b: "?f (y, x) < length t" using assms by (simp add: cell_index_bound)
  show ?thesis
    unfolding sweep_foldl
    using foldl_update_hit [of ?f "rowMajor W H" "(y, x)" t
        "\<lambda>c. newTemp W H old (snd c) (fst c)", OF d0 m b]
    by simp
qed

lemma sweep_rowMajor_cell:
  assumes "i < W * H" "length t = W * H"
  shows "sweep W H old (rowMajor W H) t ! i = newTemp W H old (i mod W) (i div W)"
proof -
  have w: "0 < W" using assms(1) by (cases W) simp_all
  have "i < H * W" using assms(1) by (simp add: mult.commute)
  then have y: "i div W < H" by (rule less_mult_imp_div_less)
  have x: "i mod W < W" using w by simp
  have "sweep W H old (rowMajor W H) t ! (i div W * W + i mod W) =
        newTemp W H old (i mod W) (i div W)"
    using x y assms(2) by (rule sweep_rowMajor_nth)
  then show ?thesis by simp
qed

lemma snapshot_wf:
  "length (temp s) = GRID_W s * GRID_H s \<Longrightarrow> snapshot s = Inr (map (\<lambda>v. v mod 256) (temp s))"
  by (simp add: snapshot_def Let_def split: option.splits)

lemma in_range_bytes: "in_range t \<Longrightarrow> map (\<lambda>v. v mod 256) t = t"
  by (induction t) (simp_all add: in_range_def)

lemma newTemp_range: "0 \<le> newTemp W H old x y \<and> newTemp W H old x y \<le> 100"
  by (simp add: newTemp_def)

lemma updateGrid_in_range:
  assumes "length (temp s) = GRID_W s * GRID_H s"
  shows "\<exists>s'. updateGrid s = Inr s' \<and> GRID_W s' = GRID_W s \<and> GRID_H s' = GRID_H s \<and>
           length (temp s') = GRID_W s * GRID_H s \<and> in_range (temp s')"
proof -
  let ?old = "map (\<lambda>v. v mod 256) (temp s)"
  let ?t = "sweep (GRID_W s) (GRID_H s) ?old (rowMajor (GRID_W s) (GRID_H s)) (temp s)"
  have u: "updateGrid s = Inr (s\<lparr>temp := ?t, oldTemp := Some ?old\<rparr>)"
    by (simp add: updateGrid_def snapshot_wf [OF assms])
  have "\<forall>i < length ?t. 0 \<le> ?t ! i \<and> ?t ! i \<le> 100"
    using assms by (simp add: length_sweep sweep_rowMajor_cell newTemp_range)
  then have "in_range ?t" by (simp add: in_range_def list_all_length)
  then show ?thesis using u assms by (simp add: length_sweep)
qed

lemma updateGrid_wf:
  "length (temp s) = GRID_W s * GRID_H s \<Longrightarrow>
   updateGrid s = Inr (s\<lparr>temp := sweep (GRID_W s) (GRID_H s) (map (\<lambda>v. v mod 256) (temp s))
                              (rowMajor (GRID_W s) (GRID_H s)) (temp s),
                          oldTemp := Some (map (\<lambda>v. v mod 256) (temp s))\<rparr>)"
  by (simp add: updateGrid_def snapshot_wf)

subsection \<open>Uniform fields\<close>

lemma neighbour_index_bound:
  assumes "0 \<le> nx" "nx < int W" "0 \<le> ny" "ny < int H"
  shows "nat (ny * int W + nx) < W * H"
proof -
  have "nat nx < W" "nat ny < H" using assms by simp_all
  then have "nat ny * W + nat nx < W * H" by (rule cell_index_bound)
  moreover have "nat (ny * int W + nx) = nat ny * W + nat nx"
    using assms by (simp add: nat_add_distrib nat_mult_distrib)
  ultimately show ?thesis by simp
qed

lemma neighbourStep_uniform:
  "neighbourStep W H (replicate (W * H) v) x y delta d = delta"
  if "x < W" "y < H"
proof -
  have c: "replicate (W * H) v ! (y * W + x) = v"
    using that by (simp add: cell_index_bound)
  show ?thesis
    unfolding neighbourStep_def Let_def c
    by (simp add: neighbour_index_bound)
qed

lemma cellDelta_uniform: "x < W \<Longrightarrow> y < H \<Longrightarrow> cellDelta W H (replicate (W * H) v) x y = 0"
  by (simp add: cellDelta_def NEIGHBOURS_def neighbourStep_uniform)

lemma sweep_uniform:
  assumes "0 \<le> v" "v \<le> 100"
  shows "sweep W H (replicate (W * H) v) (rowMajor W H) (replicate (W * H) v) = replicate (W * H) v"
proof (rule nth_equalityI)
  show "length (sweep W H (replicate (W * H) v) (rowMajor W H) (replicate (W * H) v)) =
        length (replicate (W * H) v)"
    by (simp add: length_sweep)
next
  fix i assume "i < length (sweep W H (replicate (W * H) v) (rowMajor W H) (replicate (W * H) v))"
  then have i: "i < W * H" by (simp add: length_sweep)
  then have w: "0 < W" by (cases W) simp_all
  have "i < H * W" using i by (simp add: mult.commute)
  then have y: "i div W < H" by (rule less_mult_imp_div_less)
  have x: "i mod W < W" using w by simp
  have "(i div W) * W + i mod W = i" by simp
  then have c: "replicate (W * H) v ! (i div W * W + i mod W) = v" using i by simp
  have "newTemp W H (replicate (W * H) v) (i mod W) (i div W) = v"
    unfolding newTemp_def c using assms x y by (simp add: cellDelta_uniform)
  then show "sweep W H (replicate (W * H) v) (rowMajor W H) (replicate (W * H) v) ! i =
             replicate (W * H) v ! i"
    using i by (simp add: sweep_rowMajor_cell)
qed

lemma updateGrid_uniform:
  assumes "0 \<le> v" "v \<le> 100" "temp s = replicate (GRID_W s * GRID_H s) v"
  shows "updateGrid s = Inr (s\<lparr>oldTemp := Some (temp s)\<rparr>)"
proof -
  have b: "map (\<lambda>v. v mod 256) (temp s) = temp s"
    using assms by (intro in_range_bytes) (simp add: in_range_def list_all_length)
  have l: "length (temp s) = GRID_W s * GRID_H s" using assms(3) by simp
  have "sweep (GRID_W s) (GRID_H s) (temp s) (rowMajor (GRID_W s) (GRID_H s)) (temp s) = temp s"
    using sweep_uniform [OF assms(1,2)] assms(3) by simp
  then show ?thesis by (simp add: updateGrid_wf [OF l] b)
qed

subsection \<open>One edge between two cells\<close>

lemma clampTransfer_zero: "clampTransfer 0 = 0"
  by (simp add: clampTransfer_int)

lemma clampTransfer_between:
  "min a b \<le> a + clampTransfer (b - a) \<and> a + clampTransfer (b - a) \<le> max a b"
proof (cases "a < b")
  case True
  then have "0 \<le> clampTransfer (b - a) \<and> clampTransfer (b - a) \<le> (b - a) div 2"
    by (intro clampTransfer_pos) simp
  moreover have "2 * ((b - a) div 2) \<le> b - a" by simp
  ultimately show ?thesis using True by (simp add: min_def max_def) linarith?
next
  case False
  then have "- ((- (b - a)) div 2) \<le> clampTransfer (b - a) \<and> clampTransfer (b - a) \<le> 0"
    by (intro clampTransfer_neg) simp
  moreover have "2 * ((a - b) div 2) \<le> a - b" by simp
  ultimately show ?thesis using False by (simp add: min_def max_def) linarith?
qed

lemma edge_sign:
  assumes "b < a"
  shows "b + clampTransfer (a - b) \<le> a + clampTransfer (b - a)"
proof -
  have p: "clampTransfer (a - b) \<le> (a - b) div 2"
    using clampTransfer_pos [of "a - b"] assms by simp
  have n: "- ((a - b) div 2) \<le> clampTransfer (b - a)"
    using clampTransfer_neg [of "b - a"] assms by simp
  have "2 * ((a - b) div 2) \<le> a - b" by simp
  with p n show ?thesis by linarith
qed

lemma sweep_two_cells:
  assumes "in_range [a, b]" "(W = 2 \<and> H = 1) \<or> (W = 1 \<and> H = 2)"
  shows "sweep W H [a, b] (rowMajor W H) [a, b] =
         [a + clampTransfer (b - a), b + clampTransfer (a - b)]"
proof -
  have r: "0 \<le> a" "a \<le> 100" "0 \<le> b" "b \<le> 100" using assms(1) by (simp_all add: in_range_def)
  have ca: "max 0 (min 100 (a + clampTransfer (b - a))) = a + clampTransfer (b - a)"
    using clampTransfer_between [of a b] r by (simp add: min_def max_def split: if_splits)
  have cb: "max 0 (min 100 (b + clampTransfer (a - b))) = b + clampTransfer (a - b)"
    using clampTransfer_between [of b a] r by (simp add: min_def max_def split: if_splits)
  have z: "(if b - a = 0 then 0 else clampTransfer (b - a)) = clampTransfer (b - a)"
          "(if a - b = 0 then 0 else clampTransfer (a - b)) = clampTransfer (a - b)"
          "(if a = b then 0 else clampTransfer (b - a)) = clampTransfer (b - a)"
          "(if b = a then 0 else clampTransfer (a - b)) = clampTransfer (a - b)"
    by (simp_all add: clampTransfer_zero)
  from assms(2) show ?thesis
  proof
    assume "W = 2 \<and> H = 1"
    then show ?thesis
      by (simp add: rowMajor_def sweep_def visit_def newTemp_def cellDelta_def NEIGHBOURS_def
          neighbourStep_def Let_def upt_conv_Cons numeral_2_eq_2 z ca cb clampTransfer_zero r)
  next
    assume "W = 1 \<and> H = 2"
    then show ?thesis
      by (simp add: rowMajor_def sweep_def visit_def newTemp_def cellDelta_def NEIGHBOURS_def
          neighbourStep_def Let_def upt_conv_Cons numeral_2_eq_2 z ca cb clampTransfer_zero r)
  qed
qed

subsection \<open>Evaluated sweeps\<close>

lemma sweep_3x3:
  "sweep 3 3 [0, 0, 0, 0, 100, 0, 0, 0, 0] (rowMajor 3 3) [0, 0, 0, 0, 100, 0, 0, 0, 0] =
   [0, 25, 0, 25, 0, 25, 0, 25, 0]"
  by code_simp

lemma sweep_2x1: "sweep 2 (Suc 0) [2, 0] (rowMajor 2 (Suc 0)) [2, 0] = [2, 1]"
  by code_simp

lemma sweep_3x1: "sweep 3 (Suc 0) [10, 8, 100] (rowMajor 3 (Suc 0)) [10, 8, 100] = [10, 32, 77]"
  by code_simp

section \<open>Properties of the rounding functions\<close>

lemma pow2_pos: "0 < pow2 k"
  by (simp add: pow2_def)

lemma pow2_nonpos: "k \<le> 0 \<Longrightarrow> pow2 k = 1 / 2 ^ nat (- k)"
  by (simp add: pow2_def)

lemma bitlen_nonneg: "0 \<le> bitlen n"
  by (induction n rule: bitlen.induct) (simp add: bitlen.simps)

lemma bitlen_pos: "0 < n \<Longrightarrow> 1 \<le> bitlen n"
  using bitlen_nonneg [of "n div 2"] by (simp add: bitlen.simps [of n])

lemma bitlen_bounds:
  "0 < n \<Longrightarrow> 2 ^ nat (bitlen n - 1) \<le> n \<and> n < 2 ^ nat (bitlen n)"
proof (induction n rule: bitlen.induct)
  case (1 n)
  have b: "bitlen n = 1 + bitlen (n div 2)" using "1.prems" by (simp add: bitlen.simps [of n])
  show ?case
  proof (cases "n div 2 = 0")
    case True
    then have "n = 1" using "1.prems" by presburger
    then show ?thesis by (simp add: bitlen.simps [of 1] bitlen.simps [of 0])
  next
    case False
    then have p: "0 < n div 2" using "1.prems" by presburger
    let ?b = "bitlen (n div 2)"
    have b1: "1 \<le> ?b" using p by (rule bitlen_pos)
    have ih: "2 ^ nat (?b - 1) \<le> n div 2" "n div 2 < 2 ^ nat ?b"
      using "1.IH" "1.prems" p by simp_all
    have e: "(2::int) ^ nat ?b = 2 * 2 ^ nat (?b - 1)"
      using b1 by (simp add: nat_diff_distrib flip: power_Suc)
    have e2: "(2::int) ^ nat (1 + ?b) = 2 * 2 ^ nat ?b"
      using b1 by (simp add: nat_add_distrib)
    have "2 * (n div 2) \<le> n" "n \<le> 2 * (n div 2) + 1" by presburger+
    then show ?thesis using ih e e2 by (simp add: b)
  qed
qed

lemma ilog2_lower: assumes "x \<noteq> 0" shows "pow2 (ilog2 x) \<le> \<bar>x\<bar>"
proof (cases "1 \<le> \<bar>x\<bar>")
  case True
  let ?n = "\<lfloor>\<bar>x\<bar>\<rfloor>"
  have n: "0 < ?n" using True by simp
  have e: "0 \<le> bitlen ?n - 1" using bitlen_pos [OF n] by simp
  have "(2::int) ^ nat (bitlen ?n - 1) \<le> ?n" using bitlen_bounds [OF n] by simp
  then have "(of_int (2 ^ nat (bitlen ?n - 1)) :: rat) \<le> of_int ?n" by (simp only: of_int_le_iff)
  also have "\<dots> \<le> \<bar>x\<bar>" by simp
  finally show ?thesis using True e by (simp add: ilog2_def pow2_def)
next
  case False
  let ?j = "\<lceil>1 / \<bar>x\<bar>\<rceil> - 1"
  have x: "0 < \<bar>x\<bar>" "\<bar>x\<bar> < 1" using False assms by simp_all
  then have "1 < 1 / \<bar>x\<bar>" by simp
  then have j: "0 < ?j" by (simp add: less_ceiling_iff)
  have "?j < 2 ^ nat (bitlen ?j)" using bitlen_bounds [OF j] by simp
  then have "\<lceil>1 / \<bar>x\<bar>\<rceil> \<le> 2 ^ nat (bitlen ?j)" by simp
  then have "1 / \<bar>x\<bar> \<le> of_int (2 ^ nat (bitlen ?j))" by (simp only: ceiling_le_iff)
  then have "1 / \<bar>x\<bar> \<le> 2 ^ nat (bitlen ?j)" by simp
  then have "1 \<le> 2 ^ nat (bitlen ?j) * \<bar>x\<bar>" using x(1) by (simp add: divide_le_eq)
  then have "1 / 2 ^ nat (bitlen ?j) \<le> \<bar>x\<bar>" by (simp add: divide_le_eq mult.commute)
  moreover have "pow2 (ilog2 x) = 1 / 2 ^ nat (bitlen ?j)"
    using False bitlen_nonneg [of ?j] by (simp add: ilog2_def pow2_nonpos)
  ultimately show ?thesis by simp
qed

lemma ilog2_upper: assumes "x \<noteq> 0" shows "\<bar>x\<bar> < pow2 (ilog2 x + 1)"
proof (cases "1 \<le> \<bar>x\<bar>")
  case True
  let ?n = "\<lfloor>\<bar>x\<bar>\<rfloor>"
  have n: "0 < ?n" using True by simp
  have e: "0 \<le> bitlen ?n" by (rule bitlen_nonneg)
  have "?n < 2 ^ nat (bitlen ?n)" using bitlen_bounds [OF n] by simp
  then have "\<bar>x\<bar> < of_int (2 ^ nat (bitlen ?n))" by (simp only: floor_less_iff)
  then show ?thesis using True e by (simp add: ilog2_def pow2_def)
next
  case False
  let ?j = "\<lceil>1 / \<bar>x\<bar>\<rceil> - 1"
  have x: "0 < \<bar>x\<bar>" "\<bar>x\<bar> < 1" using False assms by simp_all
  then have "1 < 1 / \<bar>x\<bar>" by simp
  then have j: "0 < ?j" by (simp add: less_ceiling_iff)
  have b1: "1 \<le> bitlen ?j" using j by (rule bitlen_pos)
  have "2 ^ nat (bitlen ?j - 1) \<le> ?j" using bitlen_bounds [OF j] by simp
  then have "2 ^ nat (bitlen ?j - 1) < \<lceil>1 / \<bar>x\<bar>\<rceil>" by simp
  then have "of_int (2 ^ nat (bitlen ?j - 1)) < 1 / \<bar>x\<bar>" by (simp only: less_ceiling_iff)
  then have "2 ^ nat (bitlen ?j - 1) < 1 / \<bar>x\<bar>" by simp
  then have "2 ^ nat (bitlen ?j - 1) * \<bar>x\<bar> < 1" using x(1) by (simp add: less_divide_eq)
  then have "\<bar>x\<bar> < 1 / 2 ^ nat (bitlen ?j - 1)" by (simp add: less_divide_eq mult.commute)
  moreover have "pow2 (ilog2 x + 1) = 1 / 2 ^ nat (bitlen ?j - 1)"
    using False b1 by (simp add: ilog2_def pow2_nonpos)
  ultimately show ?thesis by simp
qed

lemma rne_cases: "rne x = \<lfloor>x\<rfloor> \<or> rne x = \<lfloor>x\<rfloor> + 1"
  by (simp add: rne_def Let_def)

lemma rne_of_int: "rne (of_int n) = n"
  by (simp add: rne_def)

lemma rne_le: assumes "x \<le> of_int n" shows "rne x \<le> n"
proof (cases "x = of_int n")
  case True
  then show ?thesis by (simp add: rne_of_int)
next
  case False
  then have "x < of_int n" using assms by simp
  then have "\<lfloor>x\<rfloor> < n" by (simp add: floor_less_iff)
  then show ?thesis using rne_cases [of x] by auto
qed

lemma rne_ge: assumes "of_int n \<le> x" shows "n \<le> rne x"
proof -
  have "n \<le> \<lfloor>x\<rfloor>" using assms by (simp add: le_floor_iff)
  then show ?thesis using rne_cases [of x] by auto
qed

lemma round_to_between:
  assumes "of_int lo \<le> x" "x \<le> of_int hi" "max (ilog2 x) emin - int p + 1 \<le> 0"
  shows "of_int lo \<le> round_to p emin x \<and> round_to p emin x \<le> of_int hi"
proof (cases "x = 0")
  case True
  then show ?thesis using assms by (simp add: round_to_def)
next
  case False
  define m where "m = nat (- (max (ilog2 x) emin - int p + 1))"
  have q: "pow2 (max (ilog2 x) emin - int p + 1) = 1 / 2 ^ m"
    unfolding m_def using assms(3) by (rule pow2_nonpos)
  have r: "round_to p emin x = of_int (rne (x * 2 ^ m)) / 2 ^ m"
    using False by (simp add: round_to_def q Let_def)
  have "of_int (lo * 2 ^ m) \<le> x * 2 ^ m" using assms(1) by simp
  then have l: "lo * 2 ^ m \<le> rne (x * 2 ^ m)" by (rule rne_ge)
  have "x * 2 ^ m \<le> of_int (hi * 2 ^ m)" using assms(2) by simp
  then have h: "rne (x * 2 ^ m) \<le> hi * 2 ^ m" by (rule rne_le)
  have "(of_int (lo * 2 ^ m) :: rat) \<le> of_int (rne (x * 2 ^ m))"
    using l by (simp only: of_int_le_iff)
  then have 1: "(of_int lo :: rat) \<le> of_int (rne (x * 2 ^ m)) / 2 ^ m"
    by (simp add: le_divide_eq)
  have "(of_int (rne (x * 2 ^ m)) :: rat) \<le> of_int (hi * 2 ^ m)"
    using h by (simp only: of_int_le_iff)
  then have 2: "(of_int (rne (x * 2 ^ m)) :: rat) / 2 ^ m \<le> of_int hi"
    by (simp add: divide_le_eq)
  show ?thesis using 1 2 r by simp
qed

lemma ilog2_small: assumes "\<bar>x\<bar> \<le> 100" "x \<noteq> 0" shows "ilog2 x \<le> 6"
proof (rule ccontr)
  assume "\<not> ilog2 x \<le> 6"
  then have g: "7 \<le> ilog2 x" by simp
  then have "pow2 (ilog2 x) = 2 ^ nat (ilog2 x)" by (simp add: pow2_def)
  moreover have "(2::rat) ^ 7 \<le> 2 ^ nat (ilog2 x)"
    using g by (intro power_increasing) simp_all
  ultimately have "128 \<le> pow2 (ilog2 x)" by simp
  then show False using ilog2_lower [OF assms(2)] assms(1) by simp
qed

lemma fround_between:
  assumes "of_int lo \<le> x" "x \<le> of_int hi" "\<bar>x\<bar> \<le> 100"
  shows "of_int lo \<le> fround x \<and> fround x \<le> of_int hi"
proof (cases "x = 0")
  case True
  then show ?thesis using assms by (simp add: fround_def round_to_def)
next
  case False
  have "ilog2 x \<le> 6" using assms(3) False by (rule ilog2_small)
  then have "max (ilog2 x) (- 126) - int 24 + 1 \<le> 0" by simp
  from round_to_between [OF assms(1,2) this] show ?thesis by (simp add: fround_def)
qed

lemma fround_range: "0 \<le> x \<Longrightarrow> x \<le> 100 \<Longrightarrow> 0 \<le> fround x \<and> fround x \<le> 100"
  using fround_between [of 0 x 100] by simp

lemma fround_int: "0 \<le> t \<Longrightarrow> t \<le> 100 \<Longrightarrow> fround (of_int t) = of_int t"
  using fround_between [of t "of_int t" t] by simp

section \<open>Properties of the Laplacian stencil\<close>

subsection \<open>The loops, element by element\<close>

lemma rowMajor_writes_nth:
  assumes "i < W * H" "length t = W * H"
  shows "foldl (\<lambda>t c. t[fst c * W + snd c := g c]) t (rowMajor W H) ! i = g (i div W, i mod W)"
proof -
  let ?f = "\<lambda>c :: nat \<times> nat. fst c * W + snd c"
  have w: "0 < W" using assms(1) by (cases W) simp_all
  have "i < H * W" using assms(1) by (simp add: mult.commute)
  then have y: "i div W < H" by (rule less_mult_imp_div_less)
  have x: "i mod W < W" using w by simp
  have d0: "distinct (map ?f (rowMajor W H))" by (simp add: idx_rowMajor)
  have m: "(i div W, i mod W) \<in> set (rowMajor W H)" using x y by (simp add: rowMajor_def)
  have b: "?f (i div W, i mod W) < length t" using assms by simp
  show ?thesis
    using foldl_update_hit [of ?f "rowMajor W H" "(i div W, i mod W)" t g, OF d0 m b]
    by simp
qed

lemma diffuse_foldl: "diffuse W H a b =
   foldl (\<lambda>b c. b[fst c * W + snd c := fround (stencil W H a (snd c) (fst c))]) b (rowMajor W H)"
  by (simp add: diffuse_def diffuseCell_def [abs_def])

lemma length_diffuse: "length (diffuse W H a b) = length b"
  by (simp add: diffuse_foldl length_foldl_update)

lemma diffuse_nth:
  "i < W * H \<Longrightarrow> length b = W * H \<Longrightarrow>
   diffuse W H a b ! i = fround (stencil W H a (i mod W) (i div W))"
  by (simp add: diffuse_foldl rowMajor_writes_nth)

lemma publish_foldl:
  "publish n b t = foldl (\<lambda>t i. t[id i := max 0 (min 100 (js_round (b ! i)))]) t [0..<n]"
  by (simp add: publish_def publishCell_def [abs_def])

lemma length_publish: "length (publish n b t) = length t"
  unfolding publish_foldl by (rule length_foldl_update)

lemma publish_nth:
  assumes "i < n" "n \<le> length t"
  shows "publish n b t ! i = max 0 (min 100 (js_round (b ! i)))"
proof -
  have "distinct (map id [0..<n])" by simp
  moreover have "i \<in> set [0..<n]" using assms(1) by simp
  moreover have "id i < length t" using assms by simp
  ultimately have "foldl (\<lambda>t i. t[id i := max 0 (min 100 (js_round (b ! i)))]) t [0..<n] ! id i =
      max 0 (min 100 (js_round (b ! i)))"
    by (rule foldl_update_hit)
  then show ?thesis by (simp add: publish_foldl)
qed

lemma length_syncCell: "length (syncCell t a i) = length a"
  by (simp add: syncCell_def)

lemma length_syncEdits: "length (syncEdits n t a) = length a"
  by (induction n) (simp_all add: syncEdits_def length_syncCell)

lemma syncEdits_Suc: "syncEdits (Suc n) t a = syncCell t (syncEdits n t a) n"
  by (simp add: syncEdits_def)

lemma syncEdits_nth:
  "i < length a \<Longrightarrow>
   syncEdits n t a ! i =
     (if i < n \<and> t ! i \<noteq> js_round (a ! i) then fround (of_int (t ! i)) else a ! i)"
proof (induction n)
  case 0
  then show ?case by (simp add: syncEdits_def)
next
  case (Suc n)
  show ?case
  proof (cases "i = n")
    case True
    then have "syncEdits n t a ! n = a ! n" using Suc by simp
    then show ?thesis
      using True Suc.prems by (simp add: syncEdits_Suc syncCell_def length_syncEdits)
  next
    case False
    then have "syncEdits (Suc n) t a ! i = syncEdits n t a ! i"
      by (simp add: syncEdits_Suc syncCell_def)
    then show ?thesis using False Suc by auto
  qed
qed

lemma clamp_range: "0 \<le> max 0 (min 100 (z::rat)) \<and> max 0 (min 100 z) \<le> 100"
  by simp

lemma stencil_range: "0 \<le> stencil W H a x y \<and> stencil W H a x y \<le> 100"
  unfolding stencil_def Let_def by (rule clamp_range)

lemma js_round_range: "0 \<le> x \<Longrightarrow> x \<le> 100 \<Longrightarrow> 0 \<le> js_round x \<and> js_round x \<le> 100"
  unfolding js_round_def by (simp add: le_floor_iff floor_le_iff)

lemma js_round_of_int: "js_round (of_int t) = t"
  unfolding js_round_def by linarith

subsection \<open>One frame\<close>

lemma ensureBuffers_grid:
  "GRID_W (ensureBuffers n s) = GRID_W s"
  "GRID_H (ensureBuffers n s) = GRID_H s"
  "temp (ensureBuffers n s) = temp s"
  by (simp_all add: ensureBuffers_def Let_def)

lemma acc_in_range_nth: "acc_in_range a \<longleftrightarrow> (\<forall>i < length a. 0 \<le> a ! i \<and> a ! i \<le> 100)"
  by (simp add: acc_in_range_def list_all_length)

lemma in_range_nth: "in_range t \<longleftrightarrow> (\<forall>i < length t. 0 \<le> t ! i \<and> t ! i \<le> 100)"
  by (simp add: in_range_def list_all_length)

lemma ensureBuffers_wf:
  assumes "buffers_paired s" "length (temp s) = n"
  shows "\<exists>a b. stateA (ensureBuffers n s) = Some a \<and> stateB (ensureBuffers n s) = Some b \<and>
           length a = n \<and> length b = n \<and>
           (in_range (temp s) \<longrightarrow> accs_in_range s \<longrightarrow> acc_in_range a \<and> acc_in_range b)"
proof (cases "case stateA s of None \<Rightarrow> True | Some a \<Rightarrow> length a \<noteq> n")
  case True
  let ?seed = "map (\<lambda>i. fround (of_int (temp s ! i))) [0..<n]"
  have e: "ensureBuffers n s = s\<lparr>stateA := Some ?seed, stateB := Some ?seed\<rparr>"
    using True by (simp add: ensureBuffers_def Let_def)
  have "acc_in_range ?seed" if "in_range (temp s)"
    unfolding acc_in_range_nth
  proof (intro allI impI)
    fix i assume "i < length ?seed"
    then have i: "i < n" by simp
    then have "0 \<le> temp s ! i \<and> temp s ! i \<le> 100"
      using that assms(2) by (simp add: in_range_nth)
    then show "0 \<le> ?seed ! i \<and> ?seed ! i \<le> 100" using i by (simp add: fround_int)
  qed
  then show ?thesis by (simp add: e)
next
  case False
  then obtain a where a: "stateA s = Some a" "length a = n" by (auto split: option.splits)
  then obtain b where b: "stateB s = Some b" "length b = n"
    using assms(1) by (auto simp: buffers_paired_def split: option.splits)
  have "ensureBuffers n s = s" using False by (simp add: ensureBuffers_def)
  then show ?thesis using a b by (simp add: accs_in_range_def)
qed

lemma updateGrid2_step:
  assumes "stateA (ensureBuffers (GRID_W s * GRID_H s) s) = Some a"
          "stateB (ensureBuffers (GRID_W s * GRID_H s) s) = Some b"
  shows "updateGrid2 s =
     Inr ((ensureBuffers (GRID_W s * GRID_H s) s)
       \<lparr>temp := publish (GRID_W s * GRID_H s)
                  (diffuse (GRID_W s) (GRID_H s) (syncEdits (GRID_W s * GRID_H s) (temp s) a) b)
                  (temp s),
        stateA := Some (diffuse (GRID_W s) (GRID_H s) (syncEdits (GRID_W s * GRID_H s) (temp s) a) b),
        stateB := Some (syncEdits (GRID_W s * GRID_H s) (temp s) a)\<rparr>)"
  using assms by (simp add: updateGrid2_def Let_def ensureBuffers_grid)

lemma syncEdits_in_range:
  assumes "acc_in_range a" "in_range t" "length t = length a"
  shows "acc_in_range (syncEdits n t a)"
  unfolding acc_in_range_nth
proof (intro allI impI)
  fix i assume "i < length (syncEdits n t a)"
  then have i: "i < length a" by (simp add: length_syncEdits)
  have t: "0 \<le> t ! i \<and> t ! i \<le> 100" using assms(2,3) i by (simp add: in_range_nth)
  have a: "0 \<le> a ! i \<and> a ! i \<le> 100" using assms(1) i by (simp add: acc_in_range_nth)
  show "0 \<le> syncEdits n t a ! i \<and> syncEdits n t a ! i \<le> 100"
    using t a by (simp add: syncEdits_nth [OF i] fround_int)
qed

lemma diffuse_in_range:
  assumes "length b = W * H"
  shows "acc_in_range (diffuse W H a b)"
  unfolding acc_in_range_nth
proof (intro allI impI)
  fix i assume "i < length (diffuse W H a b)"
  then have i: "i < W * H" using assms by (simp add: length_diffuse)
  show "0 \<le> diffuse W H a b ! i \<and> diffuse W H a b ! i \<le> 100"
    using stencil_range [of W H a "i mod W" "i div W"]
    by (simp add: diffuse_nth [OF i assms] fround_range)
qed

lemma publish_rounds:
  assumes "acc_in_range b" "i < n" "n \<le> length t" "n \<le> length b"
  shows "publish n b t ! i = js_round (b ! i)"
proof -
  have "0 \<le> b ! i \<and> b ! i \<le> 100" using assms by (simp add: acc_in_range_nth)
  then have "0 \<le> js_round (b ! i) \<and> js_round (b ! i) \<le> 100" by (simp add: js_round_range)
  then show ?thesis using assms(2,3) by (simp add: publish_nth)
qed

lemma publish_in_range: "length t = n \<Longrightarrow> in_range (publish n b t)"
  by (simp add: in_range_nth length_publish publish_nth)

lemma updateGrid2_inv:
  assumes l: "length (temp s) = GRID_W s * GRID_H s" and p: "buffers_paired s"
  shows "\<exists>s' a' b'. updateGrid2 s = Inr s' \<and> GRID_W s' = GRID_W s \<and> GRID_H s' = GRID_H s \<and>
           length (temp s') = GRID_W s * GRID_H s \<and> in_range (temp s') \<and>
           stateA s' = Some a' \<and> stateB s' = Some b' \<and>
           length a' = GRID_W s * GRID_H s \<and> length b' = GRID_W s * GRID_H s \<and>
           acc_in_range a' \<and> (\<forall>i < GRID_W s * GRID_H s. temp s' ! i = js_round (a' ! i)) \<and>
           (in_range (temp s) \<longrightarrow> accs_in_range s \<longrightarrow> acc_in_range b')"
proof -
  let ?n = "GRID_W s * GRID_H s"
  obtain a b where ab: "stateA (ensureBuffers ?n s) = Some a" "stateB (ensureBuffers ?n s) = Some b"
      "length a = ?n" "length b = ?n"
      "in_range (temp s) \<longrightarrow> accs_in_range s \<longrightarrow> acc_in_range a \<and> acc_in_range b"
    using ensureBuffers_wf [OF p l] by blast
  let ?a1 = "syncEdits ?n (temp s) a"
  let ?b1 = "diffuse (GRID_W s) (GRID_H s) ?a1 b"
  let ?t1 = "publish ?n ?b1 (temp s)"
  have r: "acc_in_range ?b1" using ab(4) by (rule diffuse_in_range)
  have lb: "length ?b1 = ?n" using ab(4) by (simp add: length_diffuse)
  have pub: "\<forall>i < ?n. ?t1 ! i = js_round (?b1 ! i)"
    using r l lb by (simp add: publish_rounds)
  have s: "in_range (temp s) \<longrightarrow> accs_in_range s \<longrightarrow> acc_in_range ?a1"
    using ab(3,5) l by (simp add: syncEdits_in_range)
  show ?thesis
    unfolding updateGrid2_step [OF ab(1,2)]
    using l ab(3) lb r pub s
    by (simp add: ensureBuffers_grid length_publish publish_in_range length_syncEdits)
qed

subsection \<open>Reconciliation of external edits\<close>

lemma ensureBuffers_idle:
  "stateA s = Some a \<Longrightarrow> length a = n \<Longrightarrow> ensureBuffers n s = s"
  by (simp add: ensureBuffers_def)

lemma ensureBuffers_seed:
  assumes "stateA (ensureBuffers n s) = Some a" "ensureBuffers n s \<noteq> s"
  shows "a = map (\<lambda>i. fround (of_int (temp s ! i))) [0..<n]"
  using assms by (simp add: ensureBuffers_def Let_def split: if_splits)

lemma syncEdits_override:
  assumes "i < length a" "i < n" "js_round v \<noteq> t ! i" "t ! i \<noteq> js_round (a ! i)"
  shows "syncEdits n t (a[i := v]) = syncEdits n t a"
proof (rule nth_equalityI)
  show "length (syncEdits n t (a[i := v])) = length (syncEdits n t a)"
    by (simp add: length_syncEdits)
next
  fix j assume "j < length (syncEdits n t (a[i := v]))"
  then have j: "j < length a" "j < length (a[i := v])" by (simp_all add: length_syncEdits)
  show "syncEdits n t (a[i := v]) ! j = syncEdits n t a ! j"
  proof (cases "j = i")
    case True
    have "syncEdits n t (a[i := v]) ! i = fround (of_int (t ! i))"
      using assms by (simp add: syncEdits_nth)
    moreover have "syncEdits n t a ! i = fround (of_int (t ! i))"
      using assms by (simp add: syncEdits_nth)
    ultimately show ?thesis using True by simp
  next
    case False
    then show ?thesis
      by (simp add: syncEdits_nth [OF j(1)] syncEdits_nth [OF j(2)])
  qed
qed

lemma syncEdits_idle:
  assumes "\<forall>i < n. t ! i = js_round (a ! i)"
  shows "syncEdits n t a = a"
proof (rule nth_equalityI)
  show "length (syncEdits n t a) = length a" by (rule length_syncEdits)
next
  fix i assume "i < length (syncEdits n t a)"
  then have i: "i < length a" by (simp add: length_syncEdits)
  have "\<not> (i < n \<and> t ! i \<noteq> js_round (a ! i))" using assms by blast
  then show "syncEdits n t a ! i = a ! i" by (simp only: syncEdits_nth [OF i] if_False)
qed

subsection \<open>Sequences of frames\<close>

lemma frames_in_range:
  "length (temp s) = GRID_W s * GRID_H s \<Longrightarrow> in_range (temp s) \<Longrightarrow>
   \<exists>s'. frames n s = Inr s' \<and> in_range (temp s') \<and> length (temp s') = length (temp s)"
proof (induction n arbitrary: s)
  case 0
  then show ?case by simp
next
  case (Suc n)
  obtain s1 where s1: "updateGrid s = Inr s1" "GRID_W s1 = GRID_W s" "GRID_H s1 = GRID_H s"
      "length (temp s1) = GRID_W s * GRID_H s" "in_range (temp s1)"
    using updateGrid_in_range [OF Suc.prems(1)] by blast
  have "length (temp s1) = GRID_W s1 * GRID_H s1" using s1 by simp
  from Suc.IH [OF this s1(5)] show ?case using s1 Suc.prems(1) by simp
qed

lemma frames2_in_range:
  "length (temp s) = GRID_W s * GRID_H s \<Longrightarrow> in_range (temp s) \<Longrightarrow> buffers_paired s \<Longrightarrow>
   \<exists>s'. frames2 n s = Inr s' \<and> in_range (temp s') \<and> length (temp s') = length (temp s)"
proof (induction n arbitrary: s)
  case 0
  then show ?case by simp
next
  case (Suc n)
  obtain s1 a1 b1 where s1: "updateGrid2 s = Inr s1" "GRID_W s1 = GRID_W s" "GRID_H s1 = GRID_H s"
      "length (temp s1) = GRID_W s * GRID_H s" "in_range (temp s1)"
      "stateA s1 = Some a1" "stateB s1 = Some b1"
      "length a1 = GRID_W s * GRID_H s" "length b1 = GRID_W s * GRID_H s"
    using updateGrid2_inv [OF Suc.prems(1,3)] by blast
  have l: "length (temp s1) = GRID_W s1 * GRID_H s1" using s1 by simp
  have p: "buffers_paired s1" using s1(6,7,8,9) by (simp add: buffers_paired_def)
  from Suc.IH [OF l s1(5) p] show ?case using s1 Suc.prems(1) by simp
qed

lemma frames2_accs:
  "length (temp s) = GRID_W s * GRID_H s \<Longrightarrow> in_range (temp s) \<Longrightarrow> buffers_paired s \<Longrightarrow>
   accs_in_range s \<Longrightarrow> \<exists>s'. frames2 n s = Inr s' \<and> accs_in_range s'"
proof (induction n arbitrary: s)
  case 0
  then show ?case by simp
next
  case (Suc n)
  obtain s1 a1 b1 where s1: "updateGrid2 s = Inr s1" "GRID_W s1 = GRID_W s" "GRID_H s1 = GRID_H s"
      "length (temp s1) = GRID_W s * GRID_H s" "in_range (temp s1)"
      "stateA s1 = Some a1" "stateB s1 = Some b1"
      "length a1 = GRID_W s * GRID_H s" "length b1 = GRID_W s * GRID_H s"
      "acc_in_range a1" "in_range (temp s) \<longrightarrow> accs_in_range s \<longrightarrow> acc_in_range b1"
    using updateGrid2_inv [OF Suc.prems(1,3)] by blast
  have l: "length (temp s1) = GRID_W s1 * GRID_H s1" using s1 by simp
  have p: "buffers_paired s1" using s1(6,7,8,9) by (simp add: buffers_paired_def)
  have a: "accs_in_range s1" using s1(6,7,10,11) Suc.prems(2,4) by (simp add: accs_in_range_def)
  from Suc.IH [OF l s1(5) p a] show ?case using s1 by simp
qed

subsection \<open>Evaluated roundings\<close>

text \<open>
  Known values: 0.2 as a double and as a float, ties that go to the even significand, and
  the double sum of 0.1 and 0.2.
\<close>

lemma dround_fifth: "dround (1 / 5) = 3602879701896397 / 2 ^ 54"
  by code_simp

lemma fround_fifth: "fround (1 / 5) = 13421773 / 2 ^ 26"
  by code_simp

lemma fround_tie: "fround 16777217 = 16777216 \<and> fround 16777219 = 16777220"
  by code_simp

lemma dadd_tenths: "dadd (dround (1 / 10)) (dround (1 / 5)) = 1351079888211149 / 2 ^ 52"
  by code_simp

lemma round_fifth: "js_round (13421773 / 67108864) = 0"
  by code_simp

section \<open>Claims about the neighbour transfer\<close>

text \<open>
  C2. On a 3 by 3 grid with \<open>FLOW_RATE = 0.25\<close>, centre cell 100 and the eight other cells 0,
  one call of \<open>updateGrid\<close> leaves 25 in each of the four cardinal neighbours of the centre,
  0 in the four diagonal cells and 0 in the centre, whatever the snapshot buffer held.
\<close>

theorem scenario_A_3x3:
  "FLOW_RATE = 1 / 4 \<and>
   updateGrid \<lparr>GRID_W = 3, GRID_H = 3, temp = [0, 0, 0, 0, 100, 0, 0, 0, 0], oldTemp = b\<rparr> =
     Inr \<lparr>GRID_W = 3, GRID_H = 3, temp = [0, 25, 0, 25, 0, 25, 0, 25, 0],
          oldTemp = Some [0, 0, 0, 0, 100, 0, 0, 0, 0]\<rparr>"
  by (simp add: updateGrid_wf sweep_3x3 FLOW_RATE_def)

text \<open>
  C4, as amended. The two transfers that the endpoints of one edge compute for each other
  never reverse the sign of their difference; on a grid of exactly two cells with values in
  the range 0 to 100, where no other neighbour contributes, one call of \<open>updateGrid\<close>
  writes exactly these two values, so the sign of the difference does not flip.
\<close>

theorem edge_transfers_keep_sign:
  assumes "in_range [a, b]" "(W = 2 \<and> H = 1) \<or> (W = 1 \<and> H = 2)"
  shows "updateGrid \<lparr>GRID_W = W, GRID_H = H, temp = [a, b], oldTemp = ob\<rparr> =
           Inr \<lparr>GRID_W = W, GRID_H = H,
                temp = [a + clampTransfer (b - a), b + clampTransfer (a - b)],
                oldTemp = Some [a, b]\<rparr> \<and>
         (b < a \<longrightarrow> b + clampTransfer (a - b) \<le> a + clampTransfer (b - a)) \<and>
         (a < b \<longrightarrow> a + clampTransfer (b - a) \<le> b + clampTransfer (a - b))"
proof -
  have l: "length (temp \<lparr>GRID_W = W, GRID_H = H, temp = [a, b], oldTemp = ob\<rparr>) =
           GRID_W \<lparr>GRID_W = W, GRID_H = H, temp = [a, b], oldTemp = ob\<rparr> *
           GRID_H \<lparr>GRID_W = W, GRID_H = H, temp = [a, b], oldTemp = ob\<rparr>"
    using assms(2) by auto
  have b: "map (\<lambda>v. v mod 256) [a, b] = [a, b]" using assms(1) by (rule in_range_bytes)
  show ?thesis
    using sweep_two_cells [OF assms] edge_sign [of a b] edge_sign [of b a]
    by (simp add: updateGrid_wf [OF l] b del: list.map)
qed

theorem edge_transfers_keep_sign_witness:
  "in_range [9, 2] \<and> ((2::nat) = 2 \<and> (1::nat) = 1 \<or> (2::nat) = 1 \<and> (1::nat) = 2) \<and>
   updateGrid \<lparr>GRID_W = 2, GRID_H = 1, temp = [9, 2], oldTemp = None\<rparr> =
     Inr \<lparr>GRID_W = 2, GRID_H = 1, temp = [7, 4], oldTemp = Some [9, 2]\<rparr> \<and>
   (2::int) < 9 \<and> 2 + clampTransfer 7 \<le> 9 + clampTransfer (- 7)"
proof -
  have r: "in_range [9, 2]" by (simp add: in_range_def)
  have t: "clampTransfer (- 7) = - 2" "clampTransfer 7 = 2"
    by (simp_all add: clampTransfer_int)
  show ?thesis
    using r edge_transfers_keep_sign [of 9 2 2 1 None] by (simp add: t)
qed

text \<open>
  C4, as stated, fails. On the 3 by 1 grid 10, 8, 100 the first two cells differ by 2; the
  second cell also receives 23 from its other neighbour, so after one call the difference
  of the first two cells is 10 - 32, of the opposite sign.
\<close>

theorem other_neighbours_flip_sign:
  "updateGrid \<lparr>GRID_W = 3, GRID_H = 1, temp = [10, 8, 100], oldTemp = None\<rparr> =
     Inr \<lparr>GRID_W = 3, GRID_H = 1, temp = [10, 32, 77], oldTemp = Some [10, 8, 100]\<rparr> \<and>
   in_range [10, 8, 100] \<and> \<bar>10 - 8\<bar> \<ge> (2::int) \<and> (0::int) < 10 - 8 \<and> (10::int) - 32 < 0"
  by (simp add: updateGrid_wf sweep_3x1 in_range_def)

text \<open>
  C6. A uniform field with value \<open>v\<close> between 0 and 100 stays exactly uniform at \<open>v\<close> after
  any number of frames, and the accumulated transfer of every cell is 0.
\<close>

theorem uniform_field_is_fixed:
  assumes "0 \<le> v" "v \<le> 100" "temp s = replicate (GRID_W s * GRID_H s) v"
  shows "(\<exists>s'. frames n s = Inr s' \<and> temp s' = replicate (GRID_W s * GRID_H s) v \<and>
            GRID_W s' = GRID_W s \<and> GRID_H s' = GRID_H s) \<and>
         (\<forall>x < GRID_W s. \<forall>y < GRID_H s. cellDelta (GRID_W s) (GRID_H s) (temp s) x y = 0)"
proof
  show "\<exists>s'. frames n s = Inr s' \<and> temp s' = replicate (GRID_W s * GRID_H s) v \<and>
            GRID_W s' = GRID_W s \<and> GRID_H s' = GRID_H s"
    using assms(3)
  proof (induction n arbitrary: s)
    case 0
    then show ?case by simp
  next
    case (Suc n)
    let ?s1 = "s\<lparr>oldTemp := Some (temp s)\<rparr>"
    have u: "updateGrid s = Inr ?s1" using assms(1,2) Suc.prems by (rule updateGrid_uniform)
    have "temp ?s1 = replicate (GRID_W ?s1 * GRID_H ?s1) v" using Suc.prems by simp
    from Suc.IH [OF this] show ?case using u by simp
  qed
next
  show "\<forall>x < GRID_W s. \<forall>y < GRID_H s. cellDelta (GRID_W s) (GRID_H s) (temp s) x y = 0"
    by (simp add: assms(3) cellDelta_uniform)
qed

theorem uniform_field_is_fixed_witness:
  "(0::int) \<le> 37 \<and> (37::int) \<le> 100 \<and>
   (\<exists>s'. frames 5 \<lparr>GRID_W = 3, GRID_H = 2, temp = replicate 6 37, oldTemp = None\<rparr> = Inr s' \<and>
      temp s' = replicate 6 37 \<and> GRID_W s' = 3 \<and> GRID_H s' = 2) \<and>
   cellDelta 3 2 (replicate 6 37) 1 1 = 0"
  using uniform_field_is_fixed
    [of 37 "\<lparr>GRID_W = 3, GRID_H = 2, temp = replicate 6 37, oldTemp = None\<rparr>" 5]
  by auto

text \<open>
  C7. The field written by one frame does not depend on the order in which the cells are
  visited: visiting them in any permutation of the row-major order gives the result of
  \<open>updateGrid\<close>.
\<close>

theorem visit_order_irrelevant:
  assumes "mset cells = mset (rowMajor (GRID_W s) (GRID_H s))"
  shows "updateGridIn cells s = updateGrid s"
  by (simp add: updateGrid_def updateGridIn_def sweep_perm [OF assms] split: sum.splits)

theorem visit_order_irrelevant_witness:
  "mset [(1, 1), (0, 0), (1, 0), (0, 1)] = mset (rowMajor 2 2) \<and>
   updateGridIn [(1, 1), (0, 0), (1, 0), (0, 1)]
      \<lparr>GRID_W = 2, GRID_H = 2, temp = [100, 0, 40, 7], oldTemp = None\<rparr> =
   updateGrid \<lparr>GRID_W = 2, GRID_H = 2, temp = [100, 0, 40, 7], oldTemp = None\<rparr>"
proof -
  have m: "mset [(1, 1), (0, 0), (1, 0), (0, 1)] = mset (rowMajor 2 (2::nat))"
    by (simp add: rowMajor_def upt_conv_Cons numeral_2_eq_2)
  show ?thesis
    using m visit_order_irrelevant
      [of "[(1, 1), (0, 0), (1, 0), (0, 1)]"
          "\<lparr>GRID_W = 2, GRID_H = 2, temp = [100, 0, 40, 7], oldTemp = None\<rparr>"]
    by simp
qed

text \<open>
  C9. A single frame can raise the total of the field: \<open>Math.round\<close> sends 0.5 to 1 and
  -0.5 to 0, so on the 2 by 1 grid 2, 0 the cooler cell gains 1 while the hotter cell loses
  nothing, and the total rises from 2 to 3.
\<close>

theorem rounding_creates_heat:
  "js_round (1 / 2) = 1 \<and> js_round (- (1 / 2)) = 0 \<and>
   clampTransfer 2 = 1 \<and> clampTransfer (- 2) = 0 \<and>
   updateGrid \<lparr>GRID_W = 2, GRID_H = 1, temp = [2, 0], oldTemp = b\<rparr> =
     Inr \<lparr>GRID_W = 2, GRID_H = 1, temp = [2, 1], oldTemp = Some [2, 0]\<rparr> \<and>
   in_range [2, 0] \<and> sum_list [2, 0 :: int] < sum_list [2, 1]"
proof -
  have "js_round (1 / 2) = 1" "js_round (- (1 / 2)) = 0" by (simp_all add: js_round_def)
  moreover have "clampTransfer 2 = 1" "clampTransfer (- 2) = 0" by (simp_all add: clampTransfer_int)
  ultimately show ?thesis by (simp add: updateGrid_wf sweep_2x1 in_range_def)
qed

section \<open>Claims about the Laplacian stencil\<close>

text \<open>
  C3. When, at entry to a frame, the field value of cell \<open>i\<close> differs from the rounded
  current accumulator, the accumulator that the stencil reads holds exactly the field's
  integer at \<open>i\<close>, and the new value of the cell is computed from it. The frame's result is
  the same whatever value the accumulator held at \<open>i\<close> before, as long as it did not round
  to the field value.
\<close>

theorem external_edit_is_adopted:
  assumes l: "length (temp s) = GRID_W s * GRID_H s" and p: "buffers_paired s"
    and a: "stateA (ensureBuffers (GRID_W s * GRID_H s) s) = Some a"
    and i: "i < GRID_W s * GRID_H s" "0 \<le> temp s ! i" "temp s ! i \<le> 100"
    and d: "temp s ! i \<noteq> js_round (a ! i)"
  shows "\<exists>s' a1 b1. updateGrid2 s = Inr s' \<and> stateB s' = Some a1 \<and> stateA s' = Some b1 \<and>
           a1 ! i = of_int (temp s ! i) \<and>
           b1 ! i = fround (stencil (GRID_W s) (GRID_H s) a1 (i mod GRID_W s) (i div GRID_W s)) \<and>
           (\<forall>v. js_round v \<noteq> temp s ! i \<longrightarrow>
                updateGrid2 (s\<lparr>stateA := Some (a[i := v])\<rparr>) = Inr s')"
proof -
  let ?n = "GRID_W s * GRID_H s"
  obtain b where b: "stateB (ensureBuffers ?n s) = Some b" "length a = ?n" "length b = ?n"
    using ensureBuffers_wf [OF p l] a by auto
  let ?a1 = "syncEdits ?n (temp s) a"
  let ?b1 = "diffuse (GRID_W s) (GRID_H s) ?a1 b"
  let ?t1 = "publish ?n ?b1 (temp s)"
  let ?s' = "(ensureBuffers ?n s)\<lparr>temp := ?t1, stateA := Some ?b1, stateB := Some ?a1\<rparr>"
  have u: "updateGrid2 s = Inr ?s'" using a b(1) by (rule updateGrid2_step)
  have ia: "i < length a" using i(1) b(2) by simp
  have a1: "?a1 ! i = of_int (temp s ! i)"
    using i d by (simp add: syncEdits_nth [OF ia] fround_int)
  have b1: "?b1 ! i = fround (stencil (GRID_W s) (GRID_H s) ?a1 (i mod GRID_W s) (i div GRID_W s))"
    using i(1) b(3) by (rule diffuse_nth)
  have idle: "ensureBuffers ?n s = s"
  proof (rule ccontr)
    assume "ensureBuffers ?n s \<noteq> s"
    with a have "a = map (\<lambda>i. fround (of_int (temp s ! i))) [0..<?n]" by (rule ensureBuffers_seed)
    then have "a ! i = of_int (temp s ! i)" using i by (simp add: fround_int)
    then show False using d by (simp add: js_round_of_int)
  qed
  have sa: "stateA s = Some a" "stateB s = Some b" using a b(1) idle by simp_all
  have v: "updateGrid2 (s\<lparr>stateA := Some (a[i := v])\<rparr>) = Inr ?s'"
    if "js_round v \<noteq> temp s ! i" for v
  proof -
    let ?sv = "s\<lparr>stateA := Some (a[i := v])\<rparr>"
    have e: "ensureBuffers ?n ?sv = ?sv"
      using b(2) by (intro ensureBuffers_idle [of _ "a[i := v]"]) simp_all
    have s: "syncEdits ?n (temp s) (a[i := v]) = ?a1"
      using ia i(1) that d by (rule syncEdits_override)
    have "updateGrid2 ?sv =
      Inr ((ensureBuffers (GRID_W ?sv * GRID_H ?sv) ?sv)
        \<lparr>temp := publish (GRID_W ?sv * GRID_H ?sv)
             (diffuse (GRID_W ?sv) (GRID_H ?sv)
                (syncEdits (GRID_W ?sv * GRID_H ?sv) (temp ?sv) (a[i := v])) b) (temp ?sv),
         stateA := Some (diffuse (GRID_W ?sv) (GRID_H ?sv)
                (syncEdits (GRID_W ?sv * GRID_H ?sv) (temp ?sv) (a[i := v])) b),
         stateB := Some (syncEdits (GRID_W ?sv * GRID_H ?sv) (temp ?sv) (a[i := v]))\<rparr>)"
      by (rule updateGrid2_step) (simp_all add: e sa)
    then show ?thesis by (simp add: e s idle)
  qed
  show ?thesis using u a1 b1 v by (intro exI [of _ ?s'] exI [of _ ?a1] exI [of _ ?b1]) simp
qed

theorem external_edit_is_adopted_witness:
  "length [1, 50, 0 :: int] = 3 * 1 \<and>
   buffers_paired \<lparr>GRID_W = 3, GRID_H = 1, temp = [1, 50, 0],
      stateA = Some [13421773 / 16777216, 13421773 / 67108864, 0], stateB = Some [1, 0, 0]\<rparr> \<and>
   stateA (ensureBuffers (3 * 1) \<lparr>GRID_W = 3, GRID_H = 1, temp = [1, 50, 0],
      stateA = Some [13421773 / 16777216, 13421773 / 67108864, 0], stateB = Some [1, 0, 0]\<rparr>) =
     Some [13421773 / 16777216, 13421773 / 67108864, 0] \<and>
   (1::nat) < 3 * 1 \<and> (0::int) \<le> 50 \<and> (50::int) \<le> 100 \<and>
   (50::int) \<noteq> js_round (13421773 / 67108864) \<and> js_round (1 / 3) \<noteq> (50::int) \<and>
   (\<exists>s' a1 b1. updateGrid2 \<lparr>GRID_W = 3, GRID_H = 1, temp = [1, 50, 0],
        stateA = Some [13421773 / 16777216, 13421773 / 67108864, 0], stateB = Some [1, 0, 0]\<rparr> = Inr s' \<and>
      stateB s' = Some a1 \<and> stateA s' = Some b1 \<and> a1 ! 1 = 50 \<and>
      b1 ! 1 = fround (stencil 3 1 a1 1 0) \<and>
      updateGrid2 \<lparr>GRID_W = 3, GRID_H = 1, temp = [1, 50, 0],
        stateA = Some [13421773 / 16777216, 1 / 3, 0], stateB = Some [1, 0, 0]\<rparr> = Inr s')"
proof -
  have r: "js_round (1 / 3) = 0" by code_simp
  have e: "stateA (ensureBuffers (3 * 1) \<lparr>GRID_W = 3, GRID_H = 1, temp = [1, 50, 0],
      stateA = Some [13421773 / 16777216, 13421773 / 67108864, 0], stateB = Some [1, 0, 0]\<rparr>) =
     Some [13421773 / 16777216, 13421773 / 67108864, 0]"
    by (simp add: ensureBuffers_def)
  have p: "buffers_paired \<lparr>GRID_W = 3, GRID_H = 1, temp = [1, 50, 0],
      stateA = Some [13421773 / 16777216, 13421773 / 67108864, 0], stateB = Some [1, 0, 0]\<rparr>"
    by (simp add: buffers_paired_def)
  obtain s' a1 b1 where w: "updateGrid2 \<lparr>GRID_W = 3, GRID_H = 1, temp = [1, 50, 0],
        stateA = Some [13421773 / 16777216, 13421773 / 67108864, 0], stateB = Some [1, 0, 0]\<rparr> = Inr s'"
      "stateB s' = Some a1" "stateA s' = Some b1" "a1 ! 1 = 50"
      "b1 ! 1 = fround (stencil 3 1 a1 1 0)"
      "\<forall>v. js_round v \<noteq> 50 \<longrightarrow> updateGrid2 \<lparr>GRID_W = 3, GRID_H = 1, temp = [1, 50, 0],
        stateA = Some ([13421773 / 16777216, 13421773 / 67108864, 0][1 := v]), stateB = Some [1, 0, 0]\<rparr> = Inr s'"
    using external_edit_is_adopted
      [of "\<lparr>GRID_W = 3, GRID_H = 1, temp = [1, 50, 0],
            stateA = Some [13421773 / 16777216, 13421773 / 67108864, 0], stateB = Some [1, 0, 0]\<rparr>"
          "[13421773 / 16777216, 13421773 / 67108864, 0]" 1] e p
    by (auto simp: round_fifth)
  from w(6) have "updateGrid2 \<lparr>GRID_W = 3, GRID_H = 1, temp = [1, 50, 0],
        stateA = Some ([13421773 / 16777216, 13421773 / 67108864, 0][1 := 1 / 3]), stateB = Some [1, 0, 0]\<rparr> = Inr s'"
    using r by simp
  then have "updateGrid2 \<lparr>GRID_W = 3, GRID_H = 1, temp = [1, 50, 0],
        stateA = Some [13421773 / 16777216, 1 / 3, 0], stateB = Some [1, 0, 0]\<rparr> = Inr s'"
    by simp
  with w e p r show ?thesis by (auto simp: round_fifth)
qed

text \<open>
  C5. On a 2 by 2 grid with \<open>DIFFUSIVITY = 0.2\<close>, field 100, 0, 0, 0 and no accumulators
  yet, one frame publishes 60, 20, 20, 0. These are the values of the formula
  \<open>clamp (round (center + 0.2 * (up + down + left + right - 4 * center)))\<close> in exact
  arithmetic, an out-of-bounds neighbour taking the cell's own value.
\<close>

theorem scenario_B_2x2:
  "DIFFUSIVITY = dround (1 / 5) \<and>
   updateGrid2 \<lparr>GRID_W = 2, GRID_H = 2, temp = [100, 0, 0, 0], stateA = None, stateB = None\<rparr> =
     Inr \<lparr>GRID_W = 2, GRID_H = 2, temp = [60, 20, 20, 0],
          stateA = Some [60, 20, 20, 0], stateB = Some [100, 0, 0, 0]\<rparr> \<and>
   map (\<lambda>(center, up, down, left, right).
          max 0 (min 100 (js_round (center + 1 / 5 * (up + down + left + right - 4 * center)))))
     [(100, 100, 0, 100, 0), (0, 0, 0, 100, 0), (0, 100, 0, 0, 0), (0, 0, 0, 0, 0)] =
   [60, 20, 20, 0]"
proof (intro conjI)
  show "DIFFUSIVITY = dround (1 / 5)" by (simp add: DIFFUSIVITY_def)
  show "updateGrid2 \<lparr>GRID_W = 2, GRID_H = 2, temp = [100, 0, 0, 0], stateA = None, stateB = None\<rparr> =
     Inr \<lparr>GRID_W = 2, GRID_H = 2, temp = [60, 20, 20, 0],
          stateA = Some [60, 20, 20, 0], stateB = Some [100, 0, 0, 0]\<rparr>"
    by code_simp
  show "map (\<lambda>(center, up, down, left, right).
          max 0 (min 100 (js_round (center + 1 / 5 * (up + down + left + right - 4 * center)))))
     [(100, 100, 0, 100, 0), (0, 0, 0, 100, 0), (0, 100, 0, 0, 0), (0, 0, 0, 0, 0)] =
   [60, 20, 20, 0]"
    by code_simp
qed

text \<open>
  C8. If the field and the accumulators (when allocated) hold values between 0 and 100, then
  after one frame, and after any number of frames, both accumulators hold values between 0
  and 100. The state before first use, with no accumulators, meets the hypotheses, and so
  does any state whose field the host has overwritten with in-range integers or resized.
\<close>

theorem accumulators_stay_in_range:
  assumes "length (temp s) = GRID_W s * GRID_H s" "in_range (temp s)"
    "buffers_paired s" "accs_in_range s"
  shows "(\<exists>s' a b. updateGrid2 s = Inr s' \<and> stateA s' = Some a \<and> stateB s' = Some b \<and>
            acc_in_range a \<and> acc_in_range b) \<and>
         (\<exists>s'. frames2 n s = Inr s' \<and> accs_in_range s')"
proof
  show "\<exists>s' a b. updateGrid2 s = Inr s' \<and> stateA s' = Some a \<and> stateB s' = Some b \<and>
            acc_in_range a \<and> acc_in_range b"
    using updateGrid2_inv [OF assms(1,3)] assms(2,4) by blast
  show "\<exists>s'. frames2 n s = Inr s' \<and> accs_in_range s'"
    using assms by (rule frames2_accs)
qed

theorem accumulators_stay_in_range_witness:
  "length [1, 0, 0 :: int] = 3 * 1 \<and> in_range [1, 0, 0] \<and>
   buffers_paired \<lparr>GRID_W = 3, GRID_H = 1, temp = [1, 0, 0], stateA = None, stateB = None\<rparr> \<and>
   accs_in_range \<lparr>GRID_W = 3, GRID_H = 1, temp = [1, 0, 0], stateA = None, stateB = None\<rparr> \<and>
   (\<exists>s' a b. updateGrid2 \<lparr>GRID_W = 3, GRID_H = 1, temp = [1, 0, 0], stateA = None, stateB = None\<rparr> = Inr s' \<and>
       stateA s' = Some a \<and> stateB s' = Some b \<and> acc_in_range a \<and> acc_in_range b) \<and>
   (\<exists>s'. frames2 4 \<lparr>GRID_W = 3, GRID_H = 1, temp = [1, 0, 0], stateA = None, stateB = None\<rparr> = Inr s' \<and>
       accs_in_range s')"
  using accumulators_stay_in_range
    [of "\<lparr>GRID_W = 3, GRID_H = 1, temp = [1, 0, 0], stateA = None, stateB = None\<rparr>" 4]
  by (simp add: in_range_def buffers_paired_def accs_in_range_def)

text \<open>
  C10. After every frame each published field value is the rounded value of the new current
  accumulator, so a following frame on the unchanged field neither reseeds the buffers nor
  changes the accumulator in its reconciliation pass.
\<close>

theorem published_field_rounds_accumulator:
  assumes "length (temp s) = GRID_W s * GRID_H s" "buffers_paired s"
  shows "\<exists>s' a'. updateGrid2 s = Inr s' \<and> stateA s' = Some a' \<and>
           (\<forall>i < GRID_W s * GRID_H s. temp s' ! i = js_round (a' ! i)) \<and>
           ensureBuffers (GRID_W s' * GRID_H s') s' = s' \<and>
           syncEdits (GRID_W s' * GRID_H s') (temp s') a' = a'"
proof -
  obtain s1 a1 where s1: "updateGrid2 s = Inr s1" "GRID_W s1 = GRID_W s" "GRID_H s1 = GRID_H s"
      "stateA s1 = Some a1" "length a1 = GRID_W s * GRID_H s"
      "\<forall>i < GRID_W s * GRID_H s. temp s1 ! i = js_round (a1 ! i)"
    using updateGrid2_inv [OF assms] by blast
  have "ensureBuffers (GRID_W s1 * GRID_H s1) s1 = s1"
    using s1(2,3,4,5) by (simp add: ensureBuffers_def)
  moreover have "syncEdits (GRID_W s1 * GRID_H s1) (temp s1) a1 = a1"
    using s1(2,3,6) by (intro syncEdits_idle) simp
  ultimately show ?thesis using s1 by auto
qed

theorem published_field_rounds_accumulator_witness:
  "length [1, 0, 0 :: int] = 3 * 1 \<and>
   buffers_paired \<lparr>GRID_W = 3, GRID_H = 1, temp = [1, 0, 0], stateA = None, stateB = None\<rparr> \<and>
   (\<exists>s' a'. updateGrid2 \<lparr>GRID_W = 3, GRID_H = 1, temp = [1, 0, 0], stateA = None, stateB = None\<rparr> = Inr s' \<and>
       stateA s' = Some a' \<and> temp s' ! 0 = js_round (a' ! 0) \<and>
       temp s' ! 1 = js_round (a' ! 1) \<and> temp s' ! 2 = js_round (a' ! 2) \<and>
       ensureBuffers (GRID_W s' * GRID_H s') s' = s' \<and>
       syncEdits (GRID_W s' * GRID_H s') (temp s') a' = a')"
proof -
  let ?s = "\<lparr>GRID_W = 3, GRID_H = 1, temp = [1, 0, 0], stateA = None, stateB = None\<rparr>"
  have l: "length (temp ?s) = GRID_W ?s * GRID_H ?s" by simp
  have p: "buffers_paired ?s" by (simp add: buffers_paired_def)
  from published_field_rounds_accumulator [OF l p]
  obtain s' a' where w: "updateGrid2 ?s = Inr s'" "stateA s' = Some a'"
      "\<forall>i < GRID_W ?s * GRID_H ?s. temp s' ! i = js_round (a' ! i)"
      "ensureBuffers (GRID_W s' * GRID_H s') s' = s'"
      "syncEdits (GRID_W s' * GRID_H s') (temp s') a' = a'"
    by blast
  have i: "temp s' ! 0 = js_round (a' ! 0)" "temp s' ! 1 = js_round (a' ! 1)"
      "temp s' ! 2 = js_round (a' ! 2)"
    using w(3) by simp_all
  have "\<exists>s' a'. updateGrid2 ?s = Inr s' \<and>
       stateA s' = Some a' \<and> temp s' ! 0 = js_round (a' ! 0) \<and>
       temp s' ! 1 = js_round (a' ! 1) \<and> temp s' ! 2 = js_round (a' ! 2) \<and>
       ensureBuffers (GRID_W s' * GRID_H s') s' = s' \<and>
       syncEdits (GRID_W s' * GRID_H s') (temp s') a' = a'"
    using w(1,2,4,5) i by blast
  then show ?thesis using p by simp
qed

section \<open>Claims about both simulations\<close>

text \<open>
  C1. For grids with at least one row and one column whose field holds values between 0 and
  100, the field holds values between 0 and 100 after one frame and after any number of
  frames, for the neighbour transfer and for the Laplacian stencil.
\<close>

theorem field_stays_in_range:
  fixes s :: sim and s2 :: sim2
  assumes "0 < GRID_W s" "0 < GRID_H s" "length (temp s) = GRID_W s * GRID_H s" "in_range (temp s)"
    and "0 < GRID_W s2" "0 < GRID_H s2" "length (temp s2) = GRID_W s2 * GRID_H s2"
      "in_range (temp s2)" "buffers_paired s2"
  shows "(\<exists>s'. updateGrid s = Inr s' \<and> in_range (temp s') \<and> length (temp s') = length (temp s)) \<and>
         (\<exists>s'. frames n s = Inr s' \<and> in_range (temp s') \<and> length (temp s') = length (temp s)) \<and>
         (\<exists>s'. updateGrid2 s2 = Inr s' \<and> in_range (temp s') \<and> length (temp s') = length (temp s2)) \<and>
         (\<exists>s'. frames2 n s2 = Inr s' \<and> in_range (temp s') \<and> length (temp s') = length (temp s2))"
proof (intro conjI)
  show "\<exists>s'. updateGrid s = Inr s' \<and> in_range (temp s') \<and> length (temp s') = length (temp s)"
    using updateGrid_in_range [OF assms(3)] assms(3) by auto
  show "\<exists>s'. frames n s = Inr s' \<and> in_range (temp s') \<and> length (temp s') = length (temp s)"
    using assms(3,4) by (rule frames_in_range)
  show "\<exists>s'. updateGrid2 s2 = Inr s' \<and> in_range (temp s') \<and> length (temp s') = length (temp s2)"
    using updateGrid2_inv [OF assms(7,9)] assms(7) by auto
  show "\<exists>s'. frames2 n s2 = Inr s' \<and> in_range (temp s') \<and> length (temp s') = length (temp s2)"
    using assms(7,8,9) by (rule frames2_in_range)
qed

theorem field_stays_in_range_witness:
  "(0::nat) < 3 \<and> (0::nat) < 1 \<and> length [10, 8, 100 :: int] = 3 * 1 \<and> in_range [10, 8, 100] \<and>
   buffers_paired \<lparr>GRID_W = 3, GRID_H = 1, temp = [10, 8, 100], stateA = None, stateB = None\<rparr> \<and>
   (\<exists>s'. updateGrid \<lparr>GRID_W = 3, GRID_H = 1, temp = [10, 8, 100], oldTemp = None\<rparr> = Inr s' \<and>
       in_range (temp s') \<and> length (temp s') = length [10, 8, 100 :: int]) \<and>
   (\<exists>s'. frames 7 \<lparr>GRID_W = 3, GRID_H = 1, temp = [10, 8, 100], oldTemp = None\<rparr> = Inr s' \<and>
       in_range (temp s') \<and> length (temp s') = length [10, 8, 100 :: int]) \<and>
   (\<exists>s'. updateGrid2 \<lparr>GRID_W = 3, GRID_H = 1, temp = [10, 8, 100], stateA = None, stateB = None\<rparr> = Inr s' \<and>
       in_range (temp s') \<and> length (temp s') = length [10, 8, 100 :: int]) \<and>
   (\<exists>s'. frames2 7 \<lparr>GRID_W = 3, GRID_H = 1, temp = [10, 8, 100], stateA = None, stateB = None\<rparr> = Inr s' \<and>
       in_range (temp s') \<and> length (temp s') = length [10, 8, 100 :: int])"
  using field_stays_in_range
    [of "\<lparr>GRID_W = 3, GRID_H = 1, temp = [10, 8, 100], oldTemp = None\<rparr>"
        "\<lparr>GRID_W = 3, GRID_H = 1, temp = [10, 8, 100], stateA = None, stateB = None\<rparr>" 7]
  by (simp add: in_range_def buffers_paired_def)

end
